theory Spec2Isabelle
  imports Main "HOL-Library.Sublist"
begin

section \<open>Data model of the phasing pipeline\<close>

text \<open>
  Python exceptions that the modelled functions can raise. \<open>SystemExit\<close> is the
  \<^verbatim>\<open>sys.exit(1)\<close> of \<^verbatim>\<open>find_alleles\<close> on an unsupported CIGAR operation.
\<close>

datatype error =
  KeyError | TypeError | ValueError | AttributeError | AssertionError
  | IndexError | ZeroDivisionError | SystemExit

text \<open>
  \<^verbatim>\<open>ReadVariant(position, base, allele, quality)\<close>: one allele observation. The base is
  the Python string \<^verbatim>\<open>read.seq[s:s+1]\<close> (empty or one character), the allele one of the
  strings 0, 1, E.
\<close>

record read_variant =
  rv_position :: int
  rv_base :: string
  rv_allele :: string
  rv_quality :: int

text \<open>A variant site of the VCF, as \<^verbatim>\<open>find_alleles\<close> reads it.\<close>

record vcf_variant =
  position :: int
  reference_allele :: string
  alternative_allele :: string

text \<open>
  An alignment of the BAM file (pysam's \<^verbatim>\<open>AlignedRead\<close>), with the attributes the source
  reads. \<^verbatim>\<open>cigar\<close>, \<^verbatim>\<open>seq\<close> and \<^verbatim>\<open>qual\<close> are \<open>None\<close> when the record has none. A CIGAR
  entry is the pair of the operation number (MIDNSHPX= are 0 to 8) and its length.
\<close>

record aligned_read =
  al_qname :: string
  al_flag :: int
  al_is_secondary :: bool
  al_is_unmapped :: bool
  al_mapq :: int
  al_pos :: int
  al_cigar :: "(nat \<times> nat) list option"
  al_seq :: "string option"
  al_qual :: "string option"
  al_tags :: "(string \<times> string) list"

text \<open>
  The mapping quality of a \<^verbatim>\<open>ReadVariantList\<close> is an integer for a single read and the
  tuple of the two mates' mapping qualities for a merged pair.
\<close>

datatype mapq = MapQ int | MapQPair mapq mapq

text \<open>
  \<^verbatim>\<open>ReadVariantList(name, mapq, variants)\<close>: a fragment. The entry \<open>None\<close> of the variants
  list is the sentinel that separates the two mates of a merged pair.
\<close>

record read_variant_list =
  name :: string
  mapq :: mapq
  variants :: "read_variant option list"

section \<open>Allele Projector\<close>

text \<open>
  Lines 60 and 61 of \<^verbatim>\<open>find_alleles\<close> (and lines 158 and 159 of \<^verbatim>\<open>BamReader.read\<close>): skip
  the variants that lie before reference position \<open>p\<close>.
\<close>

function skip_before :: "vcf_variant list \<Rightarrow> nat \<Rightarrow> int \<Rightarrow> nat" where
  "skip_before vs j p =
     (if j < length vs \<and> position (vs ! j) < p then skip_before vs (Suc j) p else j)"
  by pat_completeness auto
termination
  by (relation "measure (\<lambda>(vs, j, p). length vs - j)") auto

text \<open>
  Python's \<^verbatim>\<open>ord\<close> of a string: defined on strings of length one only.
\<close>

fun py_ord :: "string \<Rightarrow> error + int" where
  "py_ord [c] = Inr (of_char c)"
| "py_ord _ = Inl TypeError"

text \<open>
  Lines 66 to 73: the observation at a hit, for read offset \<open>s\<close> and reference position
  \<open>p\<close>. Slicing \<open>None\<close> is a \<^verbatim>\<open>TypeError\<close>, and so is \<^verbatim>\<open>ord\<close> of the empty slice.
\<close>

definition observe :: "aligned_read \<Rightarrow> vcf_variant \<Rightarrow> nat \<Rightarrow> int \<Rightarrow> error + read_variant" where
  "observe read v s p =
     (case al_seq read of
        None \<Rightarrow> Inl TypeError
      | Some sq \<Rightarrow>
          let base = take 1 (drop s sq);
              al = (if base = reference_allele v then ''0''
                    else if base = alternative_allele v then ''1''
                    else ''E'')
          in case al_qual read of
               None \<Rightarrow> Inl TypeError
             | Some q \<Rightarrow>
                 (case py_ord (take 1 (drop s q)) of
                    Inl e \<Rightarrow> Inl e
                  | Inr n \<Rightarrow>
                      Inr \<lparr>rv_position = p, rv_base = base, rv_allele = al, rv_quality = n - 33\<rparr>))"

text \<open>
  Lines 64 to 78: the walk over one matching region that ends before reference position
  \<open>r\<close>. The result is the variant index and the observations after the loop.
\<close>

function match_loop ::
  "vcf_variant list \<Rightarrow> aligned_read \<Rightarrow> int \<Rightarrow> nat \<Rightarrow> int \<Rightarrow> nat \<Rightarrow> read_variant list
    \<Rightarrow> error + (nat \<times> read_variant list)" where
  "match_loop vs read r j p s read_variants =
     (if j < length vs \<and> p < r then
        (if position (vs ! j) = p then
           (case observe read (vs ! j) s p of
              Inl e \<Rightarrow> Inl e
            | Inr rv \<Rightarrow> match_loop vs read r (Suc j) (p + 1) (Suc s) (read_variants @ [rv]))
         else match_loop vs read r j (p + 1) (Suc s) read_variants)
      else Inr (j, read_variants))"
  by pat_completeness auto
termination
  by (relation "measure (\<lambda>(vs, read, r, j, p, s, rvs). nat (r - p))") auto

text \<open>
  One iteration of the loop over the CIGAR: the state is \<open>(j, p, s, read_variants)\<close>.
\<close>

fun cigar_step ::
  "vcf_variant list \<Rightarrow> aligned_read \<Rightarrow> nat \<times> int \<times> nat \<times> read_variant list \<Rightarrow> nat \<times> nat
    \<Rightarrow> error + (nat \<times> int \<times> nat \<times> read_variant list)" where
  "cigar_step vs read (j, p, s, read_variants) (cigar_op, len) =
     (if cigar_op = 0 \<or> cigar_op = 7 \<or> cigar_op = 8 then
        (case match_loop vs read (p + int len) (skip_before vs j p) p s read_variants of
           Inl e \<Rightarrow> Inl e
         | Inr (j', rvs) \<Rightarrow> Inr (j', p + int len, s + len, rvs))
      else if cigar_op = 1 then Inr (j, p, s + len, read_variants)
      else if cigar_op = 2 \<or> cigar_op = 3 then Inr (j, p + int len, s, read_variants)
      else if cigar_op = 4 then Inr (j, p, s + len, read_variants)
      else if cigar_op = 5 \<or> cigar_op = 6 then Inr (j, p, s, read_variants)
      else Inl SystemExit)"

fun find_alleles_loop ::
  "vcf_variant list \<Rightarrow> aligned_read \<Rightarrow> nat \<times> int \<times> nat \<times> read_variant list \<Rightarrow> (nat \<times> nat) list
    \<Rightarrow> error + (nat \<times> int \<times> nat \<times> read_variant list)" where
  "find_alleles_loop vs read st [] = Inr st"
| "find_alleles_loop vs read st (c # cigar) =
     (case cigar_step vs read st c of
        Inl e \<Rightarrow> Inl e
      | Inr st' \<Rightarrow> find_alleles_loop vs read st' cigar)"

definition find_alleles :: "vcf_variant list \<Rightarrow> nat \<Rightarrow> aligned_read \<Rightarrow> error + read_variant list" where
  "find_alleles vs start read =
     (case al_cigar read of
        None \<Rightarrow> Inl TypeError
      | Some cigar \<Rightarrow>
          (case find_alleles_loop vs read (start, al_pos read, 0, []) cigar of
             Inl e \<Rightarrow> Inl e
           | Inr (j, p, s, read_variants) \<Rightarrow> Inr read_variants))"

subsection \<open>The cursor semantics of the specification\<close>

text \<open>
  The variants that a matching region \<open>[p, p + len)\<close> covers, among the pending ones.
\<close>

definition spec_hits :: "vcf_variant list \<Rightarrow> nat \<Rightarrow> int \<Rightarrow> int \<Rightarrow> vcf_variant list" where
  "spec_hits vs start p r = filter (\<lambda>v. p \<le> position v \<and> position v < r) (drop start vs)"

text \<open>
  The observations of the covered variants of a region that starts at reference position
  \<open>p\<close> and read offset \<open>s\<close>: the variant at position \<open>x\<close> is read at offset \<open>s + (x - p)\<close>.
  The first failure ends the walk.
\<close>

fun spec_observations ::
  "aligned_read \<Rightarrow> int \<Rightarrow> nat \<Rightarrow> vcf_variant list \<Rightarrow> error + read_variant list" where
  "spec_observations read p s [] = Inr []"
| "spec_observations read p s (v # hits) =
     (case observe read v (s + nat (position v - p)) (position v) of
        Inl e \<Rightarrow> Inl e
      | Inr rv \<Rightarrow>
          (case spec_observations read p s hits of
             Inl e \<Rightarrow> Inl e
           | Inr rvs \<Rightarrow> Inr (rv # rvs)))"

text \<open>
  The walk of section 4.1 of the specification: match, sequence match and sequence
  mismatch advance both cursors and emit the observations of the region; insertion and
  soft clip advance the read cursor; deletion and reference skip advance the reference
  cursor; hard clip and padding advance nothing; any other operation fails.
\<close>

fun spec_walk ::
  "vcf_variant list \<Rightarrow> nat \<Rightarrow> aligned_read \<Rightarrow> int \<Rightarrow> nat \<Rightarrow> (nat \<times> nat) list
    \<Rightarrow> error + read_variant list" where
  "spec_walk vs start read p s [] = Inr []"
| "spec_walk vs start read p s ((cigar_op, len) # cigar) =
     (if cigar_op \<in> {0, 7, 8} then
        (case spec_observations read p s (spec_hits vs start p (p + int len)) of
           Inl e \<Rightarrow> Inl e
         | Inr obs \<Rightarrow>
             (case spec_walk vs start read (p + int len) (s + len) cigar of
                Inl e \<Rightarrow> Inl e
              | Inr rest \<Rightarrow> Inr (obs @ rest)))
      else if cigar_op \<in> {1, 4} then spec_walk vs start read p (s + len) cigar
      else if cigar_op \<in> {2, 3} then spec_walk vs start read (p + int len) s cigar
      else if cigar_op \<in> {5, 6} then spec_walk vs start read p s cigar
      else Inl SystemExit)"

text \<open>
  The variant list of a chromosome has strictly increasing positions (section 3 of the
  specification).
\<close>

definition variants_sorted :: "vcf_variant list \<Rightarrow> bool" where
  "variants_sorted vs = sorted_wrt (<) (map position vs)"

text \<open>
  The invariant of the variant index \<open>j\<close>: every variant from \<open>start\<close> up to \<open>j\<close> lies
  before the reference cursor \<open>p\<close>.
\<close>

definition pending :: "vcf_variant list \<Rightarrow> nat \<Rightarrow> nat \<Rightarrow> int \<Rightarrow> bool" where
  "pending vs start j p =
     (start \<le> j \<and> (\<forall>i. start \<le> i \<and> i < j \<and> i < length vs \<longrightarrow> position (vs ! i) < p))"

text \<open>An alignment and a variant list for the worked examples.\<close>

definition ex_alignment :: aligned_read where
  "ex_alignment =
     \<lparr>al_qname = ''r1'', al_flag = 0, al_is_secondary = False, al_is_unmapped = False,
      al_mapq = 60, al_pos = 98,
      al_cigar = Some [(4, 2), (0, 4), (2, 3), (1, 1), (0, 8)],
      al_seq = Some ''TTACGTAACCGGTAC'', al_qual = Some ''IIII5IIIIIII?II'',
      al_tags = [(''RG'', ''g1'')]\<rparr>"

definition ex_variants :: "vcf_variant list" where
  "ex_variants =
     [\<lparr>position = 100, reference_allele = ''A'', alternative_allele = ''G''\<rparr>,
      \<lparr>position = 103, reference_allele = ''C'', alternative_allele = ''T''\<rparr>,
      \<lparr>position = 110, reference_allele = ''T'', alternative_allele = ''C''\<rparr>]"

section \<open>Read Assembler: grouping and merging of mates\<close>

text \<open>
  \<^verbatim>\<open>grouped_by_name\<close>: the loop state is \<open>(result, prev, current)\<close>. The test
  \<^verbatim>\<open>if prev and read.name != prev.name\<close> is false on the first read (\<open>prev\<close> is None);
  a \<^verbatim>\<open>ReadVariantList\<close> is a three-field tuple and therefore true as a condition.
\<close>

fun grouped_by_name_loop ::
  "read_variant_list list \<Rightarrow> read_variant_list list list \<Rightarrow> read_variant_list option
    \<Rightarrow> read_variant_list list \<Rightarrow> read_variant_list list list" where
  "grouped_by_name_loop [] result prev current = result @ [current]"
| "grouped_by_name_loop (read # rest) result prev current =
     (case prev of
        None \<Rightarrow> grouped_by_name_loop rest result (Some read) (current @ [read])
      | Some pr \<Rightarrow>
          if name read \<noteq> name pr
          then grouped_by_name_loop rest (result @ [current]) (Some read) [read]
          else grouped_by_name_loop rest result (Some read) (current @ [read]))"

definition grouped_by_name :: "read_variant_list list \<Rightarrow> read_variant_list list list" where
  "grouped_by_name reads_with_variants = grouped_by_name_loop reads_with_variants [] None []"

text \<open>
  \<^verbatim>\<open>merge_paired_reads\<close>: the loop over the groups, with the \<^verbatim>\<open>assert\<close> of the last
  branch as an error result.
\<close>

definition merged_read :: "read_variant_list \<Rightarrow> read_variant_list \<Rightarrow> read_variant_list" where
  "merged_read a b =
     \<lparr>name = name a, mapq = MapQPair (mapq a) (mapq b),
      variants = variants a @ [None] @ variants b\<rparr>"

fun merge_paired_reads_loop ::
  "read_variant_list list list \<Rightarrow> read_variant_list list \<Rightarrow> error + read_variant_list list" where
  "merge_paired_reads_loop [] result = Inr result"
| "merge_paired_reads_loop (grp # rest) result =
     (if length grp = 1 then merge_paired_reads_loop rest (result @ [grp ! 0])
      else if length grp = 2
      then merge_paired_reads_loop rest (result @ [merged_read (grp ! 0) (grp ! 1)])
      else if length grp \<le> 2 then merge_paired_reads_loop rest result
      else Inl AssertionError)"

definition merge_paired_reads :: "read_variant_list list \<Rightarrow> error + read_variant_list list" where
  "merge_paired_reads reads = merge_paired_reads_loop (grouped_by_name reads) []"

text \<open>
  What the specification says of one group: a group of one fragment passes through, a
  group of two becomes one merged fragment. (A group of more than two is an error, and
  the empty group that \<^verbatim>\<open>grouped_by_name\<close> returns on the empty input contributes
  nothing.)
\<close>

fun spec_merge_group :: "read_variant_list list \<Rightarrow> read_variant_list list" where
  "spec_merge_group [a] = [a]"
| "spec_merge_group [a, b] =
     [\<lparr>name = name a, mapq = MapQPair (mapq a) (mapq b),
       variants = variants a @ None # variants b\<rparr>]"
| "spec_merge_group _ = []"

text \<open>A group list is a list of maximal runs of equal names.\<close>

definition same_name_run :: "read_variant_list list \<Rightarrow> bool" where
  "same_name_run g = (g \<noteq> [] \<and> list_all (\<lambda>r. name r = name (hd g)) g)"

fun name_runs :: "read_variant_list list list \<Rightarrow> bool" where
  "name_runs [] = True"
| "name_runs [g] = same_name_run g"
| "name_runs (g # h # gs) =
     (same_name_run g \<and> name (last g) \<noteq> name (hd h) \<and> name_runs (h # gs))"

text \<open>A fragment for the worked examples: a single read with the given name, mapping
  quality and observed positions.\<close>

definition ex_read :: "string \<Rightarrow> int \<Rightarrow> int list \<Rightarrow> read_variant_list" where
  "ex_read nm q ps =
     \<lparr>name = nm, mapq = MapQ q,
      variants = map (\<lambda>p. Some \<lparr>rv_position = p, rv_base = ''A'', rv_allele = ''0'', rv_quality = 30\<rparr>) ps\<rparr>"



text \<open>
  The quality of an observation is the Phred value of the quality string at a read
  offset, the offset at which the base of the observation was read.
\<close>

definition quality_at_read_offset :: "aligned_read \<Rightarrow> read_variant \<Rightarrow> bool" where
  "quality_at_read_offset read rv =
     (\<exists>q sq s. al_qual read = Some q \<and> al_seq read = Some sq \<and> s < length q
        \<and> rv_base rv = take 1 (drop s sq) \<and> rv_quality rv = of_char (q ! s) - 33)"

section \<open>Read Assembler: reading the alignments\<close>

text \<open>
  \<^verbatim>\<open>read.opt(tag)\<close> is a method of pysam's alignment class. \<^verbatim>\<open>BamReader.read\<close> is modelled
  for any such method \<open>opt\<close>; \<open>pysam_opt\<close> is the method as pysam documents it: the value
  of the tag, and a \<^verbatim>\<open>KeyError\<close> when the alignment has no such tag.
\<close>

definition pysam_opt :: "aligned_read \<Rightarrow> string \<Rightarrow> error + string" where
  "pysam_opt read tag =
     (case map_of (al_tags read) tag of None \<Rightarrow> Inl KeyError | Some v \<Rightarrow> Inr v)"

text \<open>
  The reader: the alignments that \<^verbatim>\<open>fetch(chromosome)\<close> yields, the mapping quality threshold
  and the dictionary from sample names to read group ids.
\<close>

record bam_reader =
  br_fetch :: "string \<Rightarrow> aligned_read list"
  br_mapq_threshold :: int
  br_sample_to_group_ids :: "(string \<times> string list) list"

text \<open>
  The condition of line 141,
  \<^verbatim>\<open>sample is not None and not read.opt('RG') in read_groups\<close>: whether the alignment is
  skipped for its read group. \<open>read_groups\<close> is \<open>None\<close> when no sample is given; \<open>opt\<close> is
  not called then.
\<close>

definition skipped_for_read_group ::
  "(aligned_read \<Rightarrow> string \<Rightarrow> error + string) \<Rightarrow> string list option \<Rightarrow> aligned_read \<Rightarrow> error + bool" where
  "skipped_for_read_group opt read_groups read =
     (case read_groups of
        None \<Rightarrow> Inr False
      | Some groups \<Rightarrow>
          (case opt read ''RG'' of Inl e \<Rightarrow> Inl e | Inr g \<Rightarrow> Inr (g \<notin> set groups)))"

text \<open>The other filters of lines 144 to 154, in the order of the source.\<close>

definition skipped_for_flags :: "int \<Rightarrow> aligned_read \<Rightarrow> bool" where
  "skipped_for_flags mapq_threshold read =
     (and (al_flag read) 2048 \<noteq> 0 \<or> al_is_secondary read \<or> al_is_unmapped read
      \<or> al_mapq read < mapq_threshold
      \<or> (case al_cigar read of None \<Rightarrow> True | Some cigar \<Rightarrow> cigar = []))"

text \<open>
  One iteration of the loop over the alignments, lines 141 to 163: the new variant index
  \<open>i\<close> and the fragment that is appended to the result, if any.
\<close>

definition read_step ::
  "(aligned_read \<Rightarrow> string \<Rightarrow> error + string) \<Rightarrow> int \<Rightarrow> vcf_variant list \<Rightarrow> string list option
    \<Rightarrow> aligned_read \<Rightarrow> nat \<Rightarrow> error + (nat \<times> read_variant_list option)" where
  "read_step opt thr vs read_groups read i =
     (case skipped_for_read_group opt read_groups read of
        Inl e \<Rightarrow> Inl e
      | Inr skipped \<Rightarrow>
          if skipped then Inr (i, None)
          else if skipped_for_flags thr read then Inr (i, None)
          else
            (case find_alleles vs (skip_before vs i (al_pos read)) read of
               Inl e \<Rightarrow> Inl e
             | Inr read_variants \<Rightarrow>
                 if read_variants \<noteq> [] then
                   Inr (skip_before vs i (al_pos read),
                        Some \<lparr>name = al_qname read, mapq = MapQ (al_mapq read),
                              variants = map Some read_variants\<rparr>)
                 else Inr (skip_before vs i (al_pos read), None)))"

text \<open>The loop over the alignments; the state is \<open>(i, result)\<close>.\<close>

fun read_loop ::
  "(aligned_read \<Rightarrow> string \<Rightarrow> error + string) \<Rightarrow> int \<Rightarrow> vcf_variant list \<Rightarrow> string list option
    \<Rightarrow> aligned_read list \<Rightarrow> nat \<Rightarrow> read_variant_list list \<Rightarrow> error + read_variant_list list" where
  "read_loop opt thr vs read_groups [] i result = Inr result"
| "read_loop opt thr vs read_groups (read # rest) i result =
     (case read_step opt thr vs read_groups read i of
        Inl e \<Rightarrow> Inl e
      | Inr (i', rvl) \<Rightarrow>
          read_loop opt thr vs read_groups rest i'
            (case rvl of None \<Rightarrow> result | Some fragment \<Rightarrow> result @ [fragment]))"

text \<open>
  \<^verbatim>\<open>BamReader.read(chromosome, variants, sample)\<close>. The lookup of the sample's read groups
  raises a \<^verbatim>\<open>KeyError\<close> for a sample that the header does not name.
\<close>

definition BamReader_read ::
  "(aligned_read \<Rightarrow> string \<Rightarrow> error + string) \<Rightarrow> bam_reader \<Rightarrow> string \<Rightarrow> vcf_variant list
    \<Rightarrow> string option \<Rightarrow> error + read_variant_list list" where
  "BamReader_read opt reader chromosome vs sample =
     (case sample of
        None \<Rightarrow> read_loop opt (br_mapq_threshold reader) vs None (br_fetch reader chromosome) 0 []
      | Some sm \<Rightarrow>
          (case map_of (br_sample_to_group_ids reader) sm of
             None \<Rightarrow> Inl KeyError
           | Some groups \<Rightarrow>
               read_loop opt (br_mapq_threshold reader) vs (Some groups)
                 (br_fetch reader chromosome) 0 []))"

text \<open>A reader for the worked examples: one sample with one read group.\<close>

definition ex_reader :: "aligned_read list \<Rightarrow> bam_reader" where
  "ex_reader alignments =
     \<lparr>br_fetch = (\<lambda>chromosome. alignments), br_mapq_threshold = 20,
      br_sample_to_group_ids = [(''sample1'', [''g1''])]\<rparr>"

section \<open>Fragment Filter\<close>

text \<open>
  The inner loop of \<^verbatim>\<open>filter_reads\<close> over the variants of one read. The result is whether
  the loop ended without \<^verbatim>\<open>break\<close> (the \<^verbatim>\<open>else\<close> branch of the \<^verbatim>\<open>for\<close> runs then); the
  \<^verbatim>\<open>assert\<close> on the base is an error result. \<^verbatim>\<open>x in 'ACGT01-X'\<close> is the substring test.
\<close>

fun filter_variants_loop :: "read_variant option list \<Rightarrow> int \<Rightarrow> error + bool" where
  "filter_variants_loop [] prev_pos = Inr True"
| "filter_variants_loop (None # rest) prev_pos = filter_variants_loop rest prev_pos"
| "filter_variants_loop (Some variant # rest) prev_pos =
     (if \<not> prev_pos < rv_position variant then Inr False
      else if rv_allele variant = ''E'' then Inr False
      else if \<not> sublist (rv_base variant) ''ACGT01-X'' then Inl AssertionError
      else filter_variants_loop rest (rv_position variant))"

fun filter_reads_loop ::
  "read_variant_list list \<Rightarrow> int \<Rightarrow> read_variant_list list \<Rightarrow> error + read_variant_list list" where
  "filter_reads_loop [] mincount result = Inr result"
| "filter_reads_loop (read # rest) mincount result =
     (case filter_variants_loop (variants read) (- 1) of
        Inl e \<Rightarrow> Inl e
      | Inr completed \<Rightarrow>
          if completed \<and> int (length (variants read)) \<ge> mincount
          then filter_reads_loop rest mincount (result @ [read])
          else filter_reads_loop rest mincount result)"

definition filter_reads :: "read_variant_list list \<Rightarrow> int \<Rightarrow> error + read_variant_list list" where
  "filter_reads reads mincount = filter_reads_loop reads mincount []"

text \<open>The number of observations of a fragment: its entries that are not the sentinel.\<close>

definition observation_count :: "read_variant_list \<Rightarrow> nat" where
  "observation_count read = length (filter (\<lambda>v. v \<noteq> None) (variants read))"

section \<open>Extension Voter\<close>




text \<open>
  \<^verbatim>\<open>length_of_polymer(ref, start, step, threshold)\<close>: the loop variable \<open>i\<close> is
  \<open>start + res * step\<close>. The reference \<open>ref\<close> is an indexed FASTA record; reading it at an
  index gives a base or fails.
\<close>

function length_of_polymer_loop ::
  "(int \<Rightarrow> error + char) \<Rightarrow> int \<Rightarrow> int \<Rightarrow> int \<Rightarrow> int \<Rightarrow> error + int" where
  "length_of_polymer_loop ref start step threshold res =
     (if res < threshold then
        (case ref (start + res * step) of
           Inl e \<Rightarrow> Inl e
         | Inr b \<Rightarrow>
             (case ref start of
                Inl e \<Rightarrow> Inl e
              | Inr b0 \<Rightarrow>
                  if b = b0 then length_of_polymer_loop ref start step threshold (res + 1)
                  else Inr res))
      else Inr res)"
  by pat_completeness auto
termination
  by (relation "measure (\<lambda>(ref, start, step, threshold, res). nat (threshold - res))") auto

definition length_of_polymer :: "(int \<Rightarrow> error + char) \<Rightarrow> int \<Rightarrow> int \<Rightarrow> int \<Rightarrow> error + int" where
  "length_of_polymer ref start step threshold = length_of_polymer_loop ref start step threshold 0"

text \<open>
  \<^verbatim>\<open>phased[pos] is None\<close> and \<^verbatim>\<open>change[pos].is_snv()\<close>: lookups in the dictionaries that
  \<^verbatim>\<open>run_extend\<close> fills from the variant table.
\<close>

definition phased_is_None :: "(int \<rightharpoonup> 'p option) \<Rightarrow> int \<Rightarrow> error + bool" where
  "phased_is_None phased pos =
     (case phased pos of None \<Rightarrow> Inl KeyError | Some phase \<Rightarrow> Inr (phase = None))"

definition change_is_snv :: "(int \<rightharpoonup> bool) \<Rightarrow> int \<Rightarrow> error + bool" where
  "change_is_snv change pos =
     (case change pos of None \<Rightarrow> Inl KeyError | Some snv \<Rightarrow> Inr snv)"

text \<open>
  The three skip rules of lines 141 to 151, in the order and with the short-circuit
  evaluation of the source. \<open>gap_below score1 total\<close> stands for the floating-point
  comparison \<^verbatim>\<open>100 * q < gap_threshold\<close> with \<open>q = score1 / total\<close>. The result is whether the
  position is skipped.
\<close>

definition skip_gap :: "(int \<Rightarrow> int \<Rightarrow> bool) \<Rightarrow> (int \<rightharpoonup> 'p option) \<Rightarrow> int \<Rightarrow> int \<times> int \<Rightarrow> error + bool" where
  "skip_gap gap_below phased pos q =
     (if gap_below (fst q) (snd q) then phased_is_None phased pos else Inr False)"

definition skip_only_indels ::
  "bool \<Rightarrow> (int \<rightharpoonup> bool) \<Rightarrow> (int \<rightharpoonup> 'p option) \<Rightarrow> int \<Rightarrow> error + bool" where
  "skip_only_indels only_indels change phased pos =
     (if only_indels then
        (case change_is_snv change pos of
           Inl e \<Rightarrow> Inl e
         | Inr snv \<Rightarrow> if snv then phased_is_None phased pos else Inr False)
      else Inr False)"

definition skip_poly :: "int \<Rightarrow> (int \<Rightarrow> error + char) \<Rightarrow> int \<Rightarrow> error + bool" where
  "skip_poly cut_poly fasta_chr pos =
     (if cut_poly > 0 then
        (case length_of_polymer fasta_chr (pos + 1) 1 cut_poly of
           Inl e \<Rightarrow> Inl e
         | Inr right \<Rightarrow>
             (case length_of_polymer fasta_chr pos (- 1) cut_poly of
                Inl e \<Rightarrow> Inl e
              | Inr left \<Rightarrow> Inr (max right left \<ge> cut_poly)))
      else Inr False)"

definition skipped ::
  "(int \<Rightarrow> int \<Rightarrow> bool) \<Rightarrow> bool \<Rightarrow> int \<Rightarrow> (int \<Rightarrow> error + char) \<Rightarrow> (int \<rightharpoonup> 'p option)
    \<Rightarrow> (int \<rightharpoonup> bool) \<Rightarrow> int \<Rightarrow> int \<times> int \<Rightarrow> error + bool" where
  "skipped gap_below only_indels cut_poly fasta_chr phased change pos q =
     (case skip_gap gap_below phased pos q of
        Inl e \<Rightarrow> Inl e
      | Inr s1 \<Rightarrow>
          if s1 then Inr True
          else
            (case skip_only_indels only_indels change phased pos of
               Inl e \<Rightarrow> Inl e
             | Inr s2 \<Rightarrow> if s2 then Inr True else skip_poly cut_poly fasta_chr pos))"















section \<open>Coverage Slicer\<close>


definition max_coverage_in_range :: "nat list \<Rightarrow> nat \<Rightarrow> nat \<Rightarrow> error + nat" where
  "max_coverage_in_range coverage begin end =
     (if take (end - begin) (drop begin coverage) = [] then Inl ValueError
      else Inr (Max (set (take (end - begin) (drop begin coverage)))))"



text \<open>
  \<^verbatim>\<open>position_set\<close>, and the sorted position list and the dictionary from position to index
  of \<^verbatim>\<open>slice_reads\<close>. \<^verbatim>\<open>sorted(position_set(reads))\<close> is the sorted list of the positions
  without duplicates, so the dictionary maps every position to its only index.
\<close>

definition observed_positions :: "read_variant_list \<Rightarrow> int list" where
  "observed_positions read =
     map rv_position (concat (map (\<lambda>v. case v of None \<Rightarrow> [] | Some x \<Rightarrow> [x]) (variants read)))"

definition position_set :: "read_variant_list list \<Rightarrow> int set" where
  "position_set reads = set (concat (map observed_positions reads))"

definition position_list :: "read_variant_list list \<Rightarrow> int list" where
  "position_list reads = sort (remdups (concat (map observed_positions reads)))"












definition fits :: "int \<Rightarrow> nat \<Rightarrow> nat \<Rightarrow> nat list \<Rightarrow> bool" where
  "fits max_coverage begin end coverage =
     (case max_coverage_in_range coverage begin end of Inl e \<Rightarrow> False | Inr m \<Rightarrow> int m < max_coverage)"

text \<open>
  The slices and their coverage lists run in parallel, and every coverage list has one
  entry for each position.
\<close>




section \<open>Component Finder\<close>

text \<open>
  \<^verbatim>\<open>ComponentFinder\<close>: the dictionary \<^verbatim>\<open>nodes\<close> holds one \<^verbatim>\<open>Node(value, parent)\<close> for each value.
  Nodes are created in the constructor only, so a node is identified by its value, and
  the parent references form a map from values to values; a value with no entry is a
  node whose parent is \<open>None\<close>.
\<close>

record component_finder =
  cf_values :: "int list"
  cf_parent :: "int \<rightharpoonup> int"

definition ComponentFinder :: "int list \<Rightarrow> component_finder" where
  "ComponentFinder values = \<lparr>cf_values = values, cf_parent = Map.empty\<rparr>"

text \<open>
  The two loops of \<^verbatim>\<open>_find_node\<close>: the walk to the root, and the path compression, in
  which \<^verbatim>\<open>node.parent, node = root, node.parent\<close> stores the root in the node and moves on
  to the old parent. Neither loop has a bound of its own.
\<close>

partial_function (option) find_root :: "(int \<rightharpoonup> int) \<Rightarrow> int \<Rightarrow> int option" where
  "find_root parent root =
     (case parent root of None \<Rightarrow> Some root | Some p \<Rightarrow> find_root parent p)"

partial_function (option) compress :: "(int \<rightharpoonup> int) \<Rightarrow> int \<Rightarrow> int \<Rightarrow> (int \<rightharpoonup> int) option" where
  "compress parent root node =
     (case parent node of
        None \<Rightarrow> Some parent
      | Some p \<Rightarrow> compress (parent(node \<mapsto> root)) root p)"

text \<open>
  \<^verbatim>\<open>_find_node(x)\<close>: \<^verbatim>\<open>self.nodes[x]\<close> raises a \<^verbatim>\<open>KeyError\<close> for a value without a node.
  The result is the finder after the compression and the value of the root.
\<close>

definition find_node :: "component_finder \<Rightarrow> int \<Rightarrow> (error + (component_finder \<times> int)) option" where
  "find_node cf x =
     (if x \<notin> set (cf_values cf) then Some (Inl KeyError)
      else
        (case find_root (cf_parent cf) x of
           None \<Rightarrow> None
         | Some root \<Rightarrow>
             (case compress (cf_parent cf) root x of
                None \<Rightarrow> None
              | Some parent \<Rightarrow> Some (Inr (cf\<lparr>cf_parent := parent\<rparr>, root)))))"

text \<open>\<^verbatim>\<open>ComponentFinder.find(x)\<close> returns the value of the root node.\<close>

definition ComponentFinder_find ::
  "component_finder \<Rightarrow> int \<Rightarrow> (error + (component_finder \<times> int)) option" where
  "ComponentFinder_find cf x = find_node cf x"

text \<open>
  \<^verbatim>\<open>merge(x, y)\<close>: the \<^verbatim>\<open>assert\<close>, the two calls of \<^verbatim>\<open>_find_node\<close>, and the link of the root
  of larger value below the root of smaller value. Two roots are the same node when
  their values are equal.
\<close>

definition merge :: "component_finder \<Rightarrow> int \<Rightarrow> int \<Rightarrow> (error + component_finder) option" where
  "merge cf x y =
     (if x = y then Some (Inl AssertionError)
      else
        (case find_node cf x of
           None \<Rightarrow> None
         | Some (Inl e) \<Rightarrow> Some (Inl e)
         | Some (Inr r1) \<Rightarrow>
             (case find_node (fst r1) y of
                None \<Rightarrow> None
              | Some (Inl e) \<Rightarrow> Some (Inl e)
              | Some (Inr r2) \<Rightarrow>
                  if snd r1 = snd r2 then Some (Inr (fst r2))
                  else if snd r1 < snd r2
                  then Some (Inr ((fst r2)\<lparr>cf_parent := (cf_parent (fst r2))(snd r2 \<mapsto> snd r1)\<rparr>))
                  else Some (Inr ((fst r2)\<lparr>cf_parent := (cf_parent (fst r2))(snd r1 \<mapsto> snd r2)\<rparr>)))))"

text \<open>A sequence of merge operations, applied in order.\<close>

fun merge_all :: "component_finder \<Rightarrow> (int \<times> int) list \<Rightarrow> (error + component_finder) option" where
  "merge_all cf [] = Some (Inr cf)"
| "merge_all cf (m # ms) =
     (case merge cf (fst m) (snd m) of
        None \<Rightarrow> None
      | Some (Inl e) \<Rightarrow> Some (Inl e)
      | Some (Inr cf') \<Rightarrow> merge_all cf' ms)"

text \<open>
  The connected component of a position under a list of merges: the positions that are
  reachable from it along merged pairs, in either direction.
\<close>

definition component :: "(int \<times> int) list \<Rightarrow> int \<Rightarrow> int set" where
  "component ms x = {y. (x, y) \<in> (set ms \<union> (set ms)\<inverse>)\<^sup>*}"

text \<open>
  An entry \<open>(position, base, allele, quality)\<close> of a read of the core library; a super-read
  and a read of the read set are lists of such entries.
\<close>

record core_variant =
  cv_position :: int
  cv_base :: string
  cv_allele :: int
  cv_quality :: int

text \<open>
  \<^verbatim>\<open>find_components\<close>. The positions of a read that are phased, and the loops over the
  reads and over \<^verbatim>\<open>positions[1:]\<close>.
\<close>

definition phased_positions_of :: "core_variant list list \<Rightarrow> int list" where
  "phased_positions_of superreads =
     map cv_position (filter (\<lambda>v. cv_allele v \<in> set [0, 1]) (superreads ! 0))"

definition read_positions :: "int list \<Rightarrow> core_variant list \<Rightarrow> int list" where
  "read_positions phased read = filter (\<lambda>p. p \<in> set phased) (map cv_position read)"

fun merge_positions :: "component_finder \<Rightarrow> int \<Rightarrow> int list \<Rightarrow> (error + component_finder) option" where
  "merge_positions cf first [] = Some (Inr cf)"
| "merge_positions cf first (p # ps) =
     (case merge cf first p of
        None \<Rightarrow> None
      | Some (Inl e) \<Rightarrow> Some (Inl e)
      | Some (Inr cf') \<Rightarrow> merge_positions cf' first ps)"

fun merge_reads ::
  "component_finder \<Rightarrow> int list \<Rightarrow> core_variant list list \<Rightarrow> (error + component_finder) option" where
  "merge_reads cf phased [] = Some (Inr cf)"
| "merge_reads cf phased (read # reads) =
     (case read_positions phased read of
        [] \<Rightarrow> merge_reads cf phased reads
      | first # ps \<Rightarrow>
          (case merge_positions cf first ps of
             None \<Rightarrow> None
           | Some (Inl e) \<Rightarrow> Some (Inl e)
           | Some (Inr cf') \<Rightarrow> merge_reads cf' phased reads))"

text \<open>
  The dictionary comprehension of line 427: \<^verbatim>\<open>find\<close> for every phased position, each call
  on the finder that the call before has left.
\<close>

fun find_all ::
  "component_finder \<Rightarrow> int list \<Rightarrow> (int \<rightharpoonup> int) \<Rightarrow> (error + (int \<rightharpoonup> int)) option" where
  "find_all cf [] components = Some (Inr components)"
| "find_all cf (p # ps) components =
     (case ComponentFinder_find cf p of
        None \<Rightarrow> None
      | Some (Inl e) \<Rightarrow> Some (Inl e)
      | Some (Inr r) \<Rightarrow> find_all (fst r) ps (components(p \<mapsto> snd r)))"

definition find_components ::
  "core_variant list list \<Rightarrow> core_variant list list \<Rightarrow> (error + (int \<rightharpoonup> int)) option" where
  "find_components superreads reads =
     (if length superreads \<noteq> 2 then Some (Inl AssertionError)
      else if length (superreads ! 0) \<noteq> length (superreads ! 1) then Some (Inl AssertionError)
      else if phased_positions_of superreads \<noteq> sort (phased_positions_of superreads)
      then Some (Inl AssertionError)
      else
        (case merge_reads (ComponentFinder (phased_positions_of superreads))
                (phased_positions_of superreads) reads of
           None \<Rightarrow> None
         | Some (Inl e) \<Rightarrow> Some (Inl e)
         | Some (Inr cf) \<Rightarrow> find_all cf (remdups (phased_positions_of superreads)) Map.empty))"

text \<open>
  The merges that \<^verbatim>\<open>find_components\<close> performs: for every read, its first phased position
  with each of its other phased positions.
\<close>

definition read_edges :: "int list \<Rightarrow> core_variant list \<Rightarrow> (int \<times> int) list" where
  "read_edges phased read =
     (case read_positions phased read of [] \<Rightarrow> [] | first # ps \<Rightarrow> map (\<lambda>p. (first, p)) ps)"

definition fragment_edges :: "int list \<Rightarrow> core_variant list list \<Rightarrow> (int \<times> int) list" where
  "fragment_edges phased reads = concat (map (read_edges phased) reads)"

text \<open>
  The invariant of the finder: parent references lead to nodes of the finder with a
  strictly smaller value.
\<close>

definition uf_inv :: "int list \<Rightarrow> (int \<rightharpoonup> int) \<Rightarrow> bool" where
  "uf_inv vs parent = (\<forall>x p. parent x = Some p \<longrightarrow> p < x \<and> p \<in> set vs \<and> x \<in> set vs)"

text \<open>
  The finder represents a list of merges: every node is connected to its root, merged
  nodes have the same root, and merges are between nodes of the finder.
\<close>

definition represents :: "component_finder \<Rightarrow> (int \<times> int) list \<Rightarrow> bool" where
  "represents cf ms =
     (uf_inv (cf_values cf) (cf_parent cf)
      \<and> (\<forall>x r. find_root (cf_parent cf) x = Some r \<longrightarrow> (x, r) \<in> (set ms \<union> (set ms)\<inverse>)\<^sup>*)
      \<and> (\<forall>m\<in>set ms. find_root (cf_parent cf) (fst m) = find_root (cf_parent cf) (snd m)
            \<and> fst m \<in> set (cf_values cf) \<and> snd m \<in> set (cf_values cf)))"

section \<open>Properties of the Allele Projector\<close>

declare skip_before.simps [simp del] match_loop.simps [simp del]

lemma variants_sorted_nth:
  "variants_sorted vs \<Longrightarrow> i < j \<Longrightarrow> j < length vs \<Longrightarrow> position (vs ! i) < position (vs ! j)"
  unfolding variants_sorted_def
  using sorted_wrt_nth_less [of "(<)" "map position vs" i j] by simp

lemma in_drop_nth: "v \<in> set (drop j vs) \<Longrightarrow> \<exists>k. j \<le> k \<and> k < length vs \<and> v = vs ! k"
proof -
  assume "v \<in> set (drop j vs)"
  then obtain i where "i < length (drop j vs)" "v = drop j vs ! i"
    by (auto simp: in_set_conv_nth)
  then have "j \<le> j + i \<and> j + i < length vs \<and> v = vs ! (j + i)" by auto
  then show ?thesis by blast
qed

lemma drop_pos_ge:
  assumes "variants_sorted vs" "v \<in> set (drop j vs)" "j < length vs"
  shows "position (vs ! j) \<le> position v"
proof -
  obtain k where k: "j \<le> k" "k < length vs" "v = vs ! k" using in_drop_nth [OF assms(2)] by blast
  show ?thesis
  proof (cases "j = k")
    case True then show ?thesis using k by simp
  next
    case False
    then have "j < k" using k by simp
    then show ?thesis using variants_sorted_nth [OF assms(1) _ k(2)] k(3) by fastforce
  qed
qed

lemma drop_Suc_pos_gt:
  assumes "variants_sorted vs" "v \<in> set (drop (Suc j) vs)"
  shows "position (vs ! j) < position v"
proof -
  obtain k where k: "Suc j \<le> k" "k < length vs" "v = vs ! k" using in_drop_nth [OF assms(2)] by blast
  then have "j < k" by simp
  then show ?thesis using variants_sorted_nth [OF assms(1) _ k(2)] k(3) by simp
qed

lemma hits_hit:
  assumes "variants_sorted vs" "j < length vs" "position (vs ! j) = p" "p < r"
  shows "filter (\<lambda>v. p \<le> position v \<and> position v < r) (drop j vs)
         = vs ! j # filter (\<lambda>v. p + 1 \<le> position v \<and> position v < r) (drop (Suc j) vs)"
proof -
  have d: "drop j vs = vs ! j # drop (Suc j) vs" using assms(2) by (simp add: Cons_nth_drop_Suc)
  have "filter (\<lambda>v. p \<le> position v \<and> position v < r) (drop (Suc j) vs)
        = filter (\<lambda>v. p + 1 \<le> position v \<and> position v < r) (drop (Suc j) vs)"
    by (rule filter_cong) (use drop_Suc_pos_gt [OF assms(1)] assms(3) in fastforce)+
  then show ?thesis using assms(3,4) by (simp add: d)
qed

lemma hits_miss:
  assumes "variants_sorted vs" "j < length vs" "p < position (vs ! j)"
  shows "filter (\<lambda>v. p \<le> position v \<and> position v < r) (drop j vs)
         = filter (\<lambda>v. p + 1 \<le> position v \<and> position v < r) (drop j vs)"
  by (rule filter_cong) (use drop_pos_ge [OF assms(1) _ assms(2)] assms(3) in fastforce)+

lemma hits_empty_range:
  "r \<le> p \<Longrightarrow> filter (\<lambda>v. p \<le> position v \<and> position v < r) xs = []"
  by (induction xs) auto

lemma spec_observations_shift:
  "\<forall>v\<in>set hits. p + 1 \<le> position v \<Longrightarrow>
   spec_observations read (p + 1) (Suc s) hits = spec_observations read p s hits"
proof (induction hits)
  case Nil
  then show ?case by simp
next
  case (Cons v hits)
  then have "p + 1 \<le> position v" by simp
  then have eq: "Suc s + nat (position v - (p + 1)) = s + nat (position v - p)" by linarith
  have IH: "spec_observations read (p + 1) (Suc s) hits = spec_observations read p s hits"
    using Cons by simp
  show ?case by (simp only: spec_observations.simps eq IH)
qed

lemma match_loop_char:
  "variants_sorted vs \<Longrightarrow> (j < length vs \<longrightarrow> p \<le> position (vs ! j)) \<Longrightarrow>
   match_loop vs read r j p s rvs =
     (case spec_observations read p s (filter (\<lambda>v. p \<le> position v \<and> position v < r) (drop j vs)) of
        Inl e \<Rightarrow> Inl e
      | Inr obs \<Rightarrow>
          Inr (j + length (filter (\<lambda>v. p \<le> position v \<and> position v < r) (drop j vs)), rvs @ obs))"
proof (induction vs read r j p s rvs rule: match_loop.induct)
  case (1 vs read r j p s rvs)
  let ?H = "\<lambda>p j. filter (\<lambda>v. p \<le> position v \<and> position v < r) (drop j vs)"
  show ?case
  proof (cases "j < length vs \<and> p < r")
    case False
    then have "?H p j = []" using hits_empty_range [of r p] by (cases "j < length vs") auto
    then show ?thesis using False by (auto simp: match_loop.simps [of vs read r j p s rvs])
  next
    case True
    show ?thesis
    proof (cases "position (vs ! j) = p")
      case hit: True
      have H: "?H p j = vs ! j # ?H (p + 1) (Suc j)"
        using hits_hit [OF "1.prems"(1) _ hit] True by simp
      have sh: "spec_observations read (p + 1) (Suc s) (?H (p + 1) (Suc j))
                = spec_observations read p s (?H (p + 1) (Suc j))"
        by (rule spec_observations_shift) simp
      show ?thesis
      proof (cases "observe read (vs ! j) s p")
        case (Inl e)
        then show ?thesis using True hit H
          by (simp add: match_loop.simps [of vs read r j p s rvs])
      next
        case (Inr rv)
        have pre: "Suc j < length vs \<longrightarrow> p + 1 \<le> position (vs ! Suc j)"
          using variants_sorted_nth [OF "1.prems"(1), of j "Suc j"] hit by auto
        have IH: "match_loop vs read r (Suc j) (p + 1) (Suc s) (rvs @ [rv]) =
           (case spec_observations read (p + 1) (Suc s) (?H (p + 1) (Suc j)) of
              Inl e \<Rightarrow> Inl e
            | Inr obs \<Rightarrow> Inr (Suc j + length (?H (p + 1) (Suc j)), (rvs @ [rv]) @ obs))"
          using "1.IH"(1) [OF True hit Inr "1.prems"(1) pre] .
        show ?thesis
          using True hit Inr
          by (simp add: match_loop.simps [of vs read r j p s rvs] IH sh H split: sum.splits)
      qed
    next
      case miss: False
      then have lt: "p < position (vs ! j)" using "1.prems"(2) True by simp
      have H: "?H p j = ?H (p + 1) j"
        using hits_miss [OF "1.prems"(1) _ lt] True by simp
      have sh: "spec_observations read (p + 1) (Suc s) (?H (p + 1) j)
                = spec_observations read p s (?H (p + 1) j)"
        by (rule spec_observations_shift) simp
      have pre: "j < length vs \<longrightarrow> p + 1 \<le> position (vs ! j)" using lt by simp
      have IH: "match_loop vs read r j (p + 1) (Suc s) rvs =
           (case spec_observations read (p + 1) (Suc s) (?H (p + 1) j) of
              Inl e \<Rightarrow> Inl e
            | Inr obs \<Rightarrow> Inr (j + length (?H (p + 1) j), rvs @ obs))"
        using "1.IH"(2) [OF True miss "1.prems"(1) pre] .
      show ?thesis
        unfolding H using True miss
        by (simp add: match_loop.simps [of vs read r j p s rvs] IH sh)
    qed
  qed
qed


lemma skip_before_char:
  "j \<le> skip_before vs j p
   \<and> (skip_before vs j p < length vs \<longrightarrow> p \<le> position (vs ! skip_before vs j p))
   \<and> (\<forall>i. j \<le> i \<and> i < skip_before vs j p \<longrightarrow> position (vs ! i) < p)"
proof (induction vs j p rule: skip_before.induct)
  case (1 vs j p)
  show ?case
  proof (cases "j < length vs \<and> position (vs ! j) < p")
    case True
    then have eq: "skip_before vs j p = skip_before vs (Suc j) p"
      by (simp add: skip_before.simps [of vs j p])
    have IH: "Suc j \<le> skip_before vs (Suc j) p
      \<and> (skip_before vs (Suc j) p < length vs \<longrightarrow> p \<le> position (vs ! skip_before vs (Suc j) p))
      \<and> (\<forall>i. Suc j \<le> i \<and> i < skip_before vs (Suc j) p \<longrightarrow> position (vs ! i) < p)"
      using "1.IH" [OF True] .
    have "\<forall>i. j \<le> i \<and> i < skip_before vs (Suc j) p \<longrightarrow> position (vs ! i) < p"
    proof (intro allI impI)
      fix i assume i: "j \<le> i \<and> i < skip_before vs (Suc j) p"
      show "position (vs ! i) < p"
      proof (cases "i = j")
        case True
        then show ?thesis using \<open>j < length vs \<and> position (vs ! j) < p\<close> by simp
      next
        case False
        then have "Suc j \<le> i" using i by simp
        then show ?thesis using IH i by blast
      qed
    qed
    then show ?thesis unfolding eq using IH by auto
  next
    case False
    then have eq: "skip_before vs j p = j"
      by (auto simp: skip_before.simps [of vs j p])
    show ?thesis unfolding eq using False by auto
  qed
qed

lemma pending_skip_before:
  assumes "pending vs start j p"
  shows "pending vs start (skip_before vs j p) p"
  unfolding pending_def
proof (intro conjI allI impI)
  show "start \<le> skip_before vs j p"
    using assms skip_before_char [of j vs p] by (simp add: pending_def)
  fix i assume i: "start \<le> i \<and> i < skip_before vs j p \<and> i < length vs"
  show "position (vs ! i) < p"
  proof (cases "i < j")
    case True
    then show ?thesis using assms i by (simp add: pending_def)
  next
    case False
    then show ?thesis using skip_before_char [of j vs p] i by simp
  qed
qed

lemma pending_hits:
  assumes "pending vs start j p" "p \<le> p'"
  shows "filter (\<lambda>v. p' \<le> position v \<and> position v < r) (drop j vs) = spec_hits vs start p' r"
proof -
  let ?P = "\<lambda>v. p' \<le> position v \<and> position v < r"
  have le: "start \<le> j" using assms(1) by (simp add: pending_def)
  have split: "drop start vs = take (j - start) (drop start vs) @ drop j vs"
  proof -
    have "drop j vs = drop (j - start) (drop start vs)" using le by simp
    then show ?thesis by (metis append_take_drop_id)
  qed
  have "filter ?P (take (j - start) (drop start vs)) = []"
  proof -
    have "\<not> ?P v" if "v \<in> set (take (j - start) (drop start vs))" for v
    proof -
      from that obtain k where k: "k < length (take (j - start) (drop start vs))"
          "v = take (j - start) (drop start vs) ! k"
        by (auto simp: in_set_conv_nth)
      then have kk: "k < j - start" "start + k < length vs" by auto
      then have "start \<le> length vs" by simp
      then have "v = vs ! (start + k)" using k kk by (simp add: nth_drop)
      moreover note kk
      ultimately have "position v < p" using assms(1) by (simp add: pending_def)
      then show ?thesis using assms(2) by simp
    qed
    then show ?thesis by (simp add: filter_empty_conv)
  qed
  then have "filter ?P (drop start vs) = filter ?P (drop j vs)"
    by (subst split) simp
  then show ?thesis by (simp add: spec_hits_def)
qed

lemma match_loop_pending:
  "match_loop vs read r j p s rvs = Inr (j', rvs') \<Longrightarrow> p \<le> r \<Longrightarrow>
   j \<le> j' \<and> (\<forall>i. j \<le> i \<and> i < j' \<longrightarrow> position (vs ! i) < r)"
proof (induction vs read r j p s rvs rule: match_loop.induct)
  case (1 vs read r j p s rvs)
  show ?case
  proof (cases "j < length vs \<and> p < r")
    case False
    then have "j' = j" using "1.prems"(1)
      by (auto simp: match_loop.simps [of vs read r j p s rvs])
    then show ?thesis by simp
  next
    case True
    show ?thesis
    proof (cases "position (vs ! j) = p")
      case hit: True
      then obtain rv where rv: "observe read (vs ! j) s p = Inr rv"
        and rec: "match_loop vs read r (Suc j) (p + 1) (Suc s) (rvs @ [rv]) = Inr (j', rvs')"
        using "1.prems"(1) True
        by (auto simp: match_loop.simps [of vs read r j p s rvs] split: sum.splits)
      have IH: "Suc j \<le> j' \<and> (\<forall>i. Suc j \<le> i \<and> i < j' \<longrightarrow> position (vs ! i) < r)"
        using "1.IH"(1) [OF True hit rv rec] True by simp
      have "position (vs ! i) < r" if "j \<le> i \<and> i < j'" for i
      proof (cases "i = j")
        case True
        then show ?thesis using hit \<open>j < length vs \<and> p < r\<close> by simp
      next
        case False
        then show ?thesis using IH that by simp
      qed
      then show ?thesis using IH by simp
    next
      case miss: False
      then have rec: "match_loop vs read r j (p + 1) (Suc s) rvs = Inr (j', rvs')"
        using "1.prems"(1) True
        by (auto simp: match_loop.simps [of vs read r j p s rvs])
      show ?thesis using "1.IH"(2) [OF True miss rec] True by simp
    qed
  qed
qed


lemma pending_mono: "pending vs start j p \<Longrightarrow> p \<le> p' \<Longrightarrow> pending vs start j p'"
  unfolding pending_def by force

lemma cigar_step_match:
  assumes srt: "variants_sorted vs" and pend: "pending vs start j p"
    and cop: "cigar_op = 0 \<or> cigar_op = 7 \<or> cigar_op = 8"
  shows "(\<exists>e. spec_observations read p s (spec_hits vs start p (p + int len)) = Inl e
            \<and> cigar_step vs read (j, p, s, rvs) (cigar_op, len) = Inl e)
       \<or> (\<exists>obs j'. spec_observations read p s (spec_hits vs start p (p + int len)) = Inr obs
            \<and> cigar_step vs read (j, p, s, rvs) (cigar_op, len)
                = Inr (j', p + int len, s + len, rvs @ obs)
            \<and> pending vs start j' (p + int len))"
proof -
  let ?j1 = "skip_before vs j p"
  let ?r = "p + int len"
  have P1: "pending vs start ?j1 p" using pend by (rule pending_skip_before)
  have pre: "?j1 < length vs \<longrightarrow> p \<le> position (vs ! ?j1)"
    using skip_before_char [of j vs p] by blast
  have H: "filter (\<lambda>v. p \<le> position v \<and> position v < ?r) (drop ?j1 vs) = spec_hits vs start p ?r"
    using pending_hits [OF P1, of p ?r] by simp
  have M: "match_loop vs read ?r ?j1 p s rvs =
     (case spec_observations read p s (spec_hits vs start p ?r) of
        Inl e \<Rightarrow> Inl e
      | Inr obs \<Rightarrow> Inr (?j1 + length (spec_hits vs start p ?r), rvs @ obs))"
    using match_loop_char [OF srt pre, of read ?r s rvs] unfolding H .
  show ?thesis
  proof (cases "spec_observations read p s (spec_hits vs start p ?r)")
    case (Inl e)
    then show ?thesis using M cop by auto
  next
    case (Inr obs)
    let ?j' = "?j1 + length (spec_hits vs start p ?r)"
    have ml: "match_loop vs read ?r ?j1 p s rvs = Inr (?j', rvs @ obs)"
      using M Inr by simp
    have mp: "?j1 \<le> ?j' \<and> (\<forall>i. ?j1 \<le> i \<and> i < ?j' \<longrightarrow> position (vs ! i) < ?r)"
      using match_loop_pending [OF ml] by simp
    have "pending vs start ?j' ?r"
      unfolding pending_def
    proof (intro conjI allI impI)
      show "start \<le> ?j'" using P1 by (simp add: pending_def)
      fix i assume i: "start \<le> i \<and> i < ?j' \<and> i < length vs"
      show "position (vs ! i) < ?r"
      proof (cases "i < ?j1")
        case True
        then have "position (vs ! i) < p" using P1 i by (simp add: pending_def)
        then show ?thesis by simp
      next
        case False
        then show ?thesis using mp i by simp
      qed
    qed
    moreover have "cigar_step vs read (j, p, s, rvs) (cigar_op, len) = Inr (?j', ?r, s + len, rvs @ obs)"
      using ml cop by auto
    ultimately show ?thesis using Inr by blast
  qed
qed

lemma find_alleles_loop_walk:
  "variants_sorted vs \<Longrightarrow> pending vs start j p \<Longrightarrow>
   (case find_alleles_loop vs read (j, p, s, rvs) cigar of
      Inl e \<Rightarrow> Inl e | Inr st \<Rightarrow> Inr (snd (snd (snd st))))
   = (case spec_walk vs start read p s cigar of
        Inl e \<Rightarrow> Inl e | Inr obs \<Rightarrow> Inr (rvs @ obs))"
proof (induction cigar arbitrary: j p s rvs)
  case Nil
  then show ?case by simp
next
  case (Cons c cigar)
  obtain cigar_op len where c: "c = (cigar_op, len)" by (cases c)
  consider (m) "cigar_op = 0 \<or> cigar_op = 7 \<or> cigar_op = 8"
    | (i) "cigar_op = 1 \<or> cigar_op = 4"
    | (d) "cigar_op = 2 \<or> cigar_op = 3"
    | (h) "cigar_op = 5 \<or> cigar_op = 6"
    | (u) "8 < cigar_op" by linarith
  then show ?case
  proof cases
    case m
    then have mem: "cigar_op \<in> {0, 7, 8}" by simp
    from cigar_step_match [OF Cons.prems m, of read s len rvs]
    show ?thesis
    proof (elim disjE exE conjE)
      fix e
      assume "spec_observations read p s (spec_hits vs start p (p + int len)) = Inl e"
        "cigar_step vs read (j, p, s, rvs) (cigar_op, len) = Inl e"
      then show ?thesis unfolding c using mem by (simp del: cigar_step.simps)
    next
      fix obs j'
      assume so: "spec_observations read p s (spec_hits vs start p (p + int len)) = Inr obs"
        and cs: "cigar_step vs read (j, p, s, rvs) (cigar_op, len)
                 = Inr (j', p + int len, s + len, rvs @ obs)"
        and pd: "pending vs start j' (p + int len)"
      have IH: "(case find_alleles_loop vs read (j', p + int len, s + len, rvs @ obs) cigar of
                   Inl e \<Rightarrow> Inl e | Inr st \<Rightarrow> Inr (snd (snd (snd st))))
                = (case spec_walk vs start read (p + int len) (s + len) cigar of
                     Inl e \<Rightarrow> Inl e | Inr rest \<Rightarrow> Inr ((rvs @ obs) @ rest))"
        using Cons.IH [OF Cons.prems(1) pd] .
      show ?thesis unfolding c using mem so cs IH
        by (cases "spec_walk vs start read (p + int len) (s + len) cigar";
            cases "find_alleles_loop vs read (j', p + int len, s + len, rvs @ obs) cigar")
           (simp_all del: cigar_step.simps)
    qed
  next
    case i
    have IH: "(case find_alleles_loop vs read (j, p, s + len, rvs) cigar of
                   Inl e \<Rightarrow> Inl e | Inr st \<Rightarrow> Inr (snd (snd (snd st))))
                = (case spec_walk vs start read p (s + len) cigar of
                     Inl e \<Rightarrow> Inl e | Inr rest \<Rightarrow> Inr (rvs @ rest))"
      using Cons.IH [OF Cons.prems] .
    show ?thesis unfolding c using i IH by auto
  next
    case d
    have pd: "pending vs start j (p + int len)"
      using Cons.prems(2) by (rule pending_mono) simp
    have IH: "(case find_alleles_loop vs read (j, p + int len, s, rvs) cigar of
                   Inl e \<Rightarrow> Inl e | Inr st \<Rightarrow> Inr (snd (snd (snd st))))
                = (case spec_walk vs start read (p + int len) s cigar of
                     Inl e \<Rightarrow> Inl e | Inr rest \<Rightarrow> Inr (rvs @ rest))"
      using Cons.IH [OF Cons.prems(1) pd] .
    show ?thesis unfolding c using d IH by auto
  next
    case h
    have IH: "(case find_alleles_loop vs read (j, p, s, rvs) cigar of
                   Inl e \<Rightarrow> Inl e | Inr st \<Rightarrow> Inr (snd (snd (snd st))))
                = (case spec_walk vs start read p s cigar of
                     Inl e \<Rightarrow> Inl e | Inr rest \<Rightarrow> Inr (rvs @ rest))"
      using Cons.IH [OF Cons.prems] .
    show ?thesis unfolding c using h IH by auto
  next
    case u
    then show ?thesis unfolding c by auto
  qed
qed

lemma pending_start: "pending vs start start p"
  by (simp add: pending_def)

lemma observe_fields:
  assumes "observe read v s p = Inr rv"
  shows "rv_position rv = p
    \<and> (\<exists>sq. al_seq read = Some sq \<and> rv_base rv = take 1 (drop s sq))
    \<and> rv_allele rv = (if rv_base rv = reference_allele v then ''0''
                      else if rv_base rv = alternative_allele v then ''1'' else ''E'')
    \<and> (\<exists>q. al_qual read = Some q \<and> s < length q \<and> rv_quality rv = of_char (q ! s) - 33)"
proof -
  obtain sq where sq: "al_seq read = Some sq"
    using assms by (auto simp: observe_def split: option.splits)
  obtain q where q: "al_qual read = Some q"
    using assms sq by (auto simp: observe_def Let_def split: option.splits)
  obtain n where n: "py_ord (take 1 (drop s q)) = Inr n"
    using assms sq q by (auto simp: observe_def Let_def split: sum.splits)
  have "take 1 (drop s q) \<noteq> []" using n by auto
  then have sl: "s < length q" by simp
  then have "drop s q = q ! s # drop (Suc s) q" by (simp add: Cons_nth_drop_Suc)
  then have "take 1 (drop s q) = [q ! s]" by simp
  then have "n = of_char (q ! s)" using n by simp
  then show ?thesis using assms sq q n sl
    by (auto simp: observe_def Let_def)
qed

lemma observe_quality: "observe read v s p = Inr rv \<Longrightarrow> quality_at_read_offset read rv"
  using observe_fields [of read v s p rv] unfolding quality_at_read_offset_def by blast

lemma match_loop_quality:
  "match_loop vs read r j p s rvs = Inr (j', rvs') \<Longrightarrow> list_all (quality_at_read_offset read) rvs
   \<Longrightarrow> list_all (quality_at_read_offset read) rvs'"
proof (induction vs read r j p s rvs rule: match_loop.induct)
  case (1 vs read r j p s rvs)
  show ?case
  proof (cases "j < length vs \<and> p < r")
    case False
    then have "rvs' = rvs" using "1.prems"(1)
      by (auto simp: match_loop.simps [of vs read r j p s rvs])
    then show ?thesis using "1.prems"(2) by simp
  next
    case True
    show ?thesis
    proof (cases "position (vs ! j) = p")
      case hit: True
      then obtain rv where rv: "observe read (vs ! j) s p = Inr rv"
        and rec: "match_loop vs read r (Suc j) (p + 1) (Suc s) (rvs @ [rv]) = Inr (j', rvs')"
        using "1.prems"(1) True
        by (auto simp: match_loop.simps [of vs read r j p s rvs] split: sum.splits)
      have "list_all (quality_at_read_offset read) (rvs @ [rv])"
        using "1.prems"(2) observe_quality [OF rv] by simp
      then show ?thesis using "1.IH"(1) [OF True hit rv rec] by simp
    next
      case miss: False
      then have rec: "match_loop vs read r j (p + 1) (Suc s) rvs = Inr (j', rvs')"
        using "1.prems"(1) True
        by (auto simp: match_loop.simps [of vs read r j p s rvs])
      show ?thesis using "1.IH"(2) [OF True miss rec "1.prems"(2)] .
    qed
  qed
qed

lemma cigar_step_quality:
  assumes "cigar_step vs read (j, p, s, rvs) c = Inr (j', p', s', rvs')"
    and "list_all (quality_at_read_offset read) rvs"
  shows "list_all (quality_at_read_offset read) rvs'"
proof -
  obtain cigar_op len where c: "c = (cigar_op, len)" by (cases c)
  show ?thesis
  proof (cases "cigar_op = 0 \<or> cigar_op = 7 \<or> cigar_op = 8")
    case True
    then obtain j1 where "match_loop vs read (p + int len) (skip_before vs j p) p s rvs = Inr (j1, rvs')"
      using assms(1) unfolding c by (auto split: sum.splits)
    then show ?thesis using match_loop_quality assms(2) by blast
  next
    case False
    then have "rvs' = rvs" using assms(1) unfolding c by (auto split: if_splits)
    then show ?thesis using assms(2) by simp
  qed
qed

lemma find_alleles_loop_quality:
  "find_alleles_loop vs read (j, p, s, rvs) cigar = Inr (j', p', s', rvs')
   \<Longrightarrow> list_all (quality_at_read_offset read) rvs
   \<Longrightarrow> list_all (quality_at_read_offset read) rvs'"
proof (induction cigar arbitrary: j p s rvs)
  case Nil
  then show ?case by simp
next
  case (Cons c cigar)
  from Cons.prems(1) obtain st where st: "cigar_step vs read (j, p, s, rvs) c = Inr st"
    and rec: "find_alleles_loop vs read st cigar = Inr (j', p', s', rvs')"
    by (auto split: sum.splits simp del: cigar_step.simps)
  obtain j1 p1 s1 rvs1 where st_eq: "st = (j1, p1, s1, rvs1)" by (cases st) auto
  have "list_all (quality_at_read_offset read) rvs1"
    using cigar_step_quality [OF st [unfolded st_eq] Cons.prems(2)] .
  then show ?case using Cons.IH [OF rec [unfolded st_eq]] by simp
qed

lemma find_alleles_quality_all:
  assumes "find_alleles vs start read = Inr rvs"
  shows "list_all (quality_at_read_offset read) rvs"
proof -
  obtain cigar where cg: "al_cigar read = Some cigar"
    using assms by (auto simp: find_alleles_def split: option.splits)
  then obtain j p s where "find_alleles_loop vs read (start, al_pos read, 0, []) cigar = Inr (j, p, s, rvs)"
    using assms by (auto simp: find_alleles_def split: sum.splits)
  then show ?thesis using find_alleles_loop_quality [of vs read start "al_pos read" 0 "[]" cigar j p s rvs]
    by simp
qed

lemma observe_no_qual: "al_qual read = None \<Longrightarrow> observe read v s p = Inl TypeError"
  by (simp add: observe_def Let_def split: option.splits)

text \<open>
  Claim C7, as amended. Every observation that \<^verbatim>\<open>find_alleles\<close> returns carries the quality
  \<open>ord(qual[s]) - 33\<close> for a read offset \<open>s\<close> inside the quality string, the offset at which
  its base was read; the observation made at read offset \<open>s\<close> has the quality of offset \<open>s\<close>.
  No default quality exists: on an alignment without a quality string every hit fails
  with a \<^verbatim>\<open>TypeError\<close>, so \<^verbatim>\<open>find_alleles\<close> can only return the empty list.
\<close>

theorem find_alleles_quality:
  "(find_alleles vs start read = Inr rvs \<longrightarrow> list_all (quality_at_read_offset read) rvs)
   \<and> (observe read v s p = Inr rv \<longrightarrow>
        (\<exists>q. al_qual read = Some q \<and> s < length q \<and> rv_quality rv = of_char (q ! s) - 33))
   \<and> (al_qual read = None \<longrightarrow> observe read v s p = Inl TypeError)
   \<and> (al_qual read = None \<longrightarrow> find_alleles vs start read = Inr rvs \<longrightarrow> rvs = [])"
proof (intro conjI impI)
  assume "find_alleles vs start read = Inr rvs"
  then show "list_all (quality_at_read_offset read) rvs" by (rule find_alleles_quality_all)
next
  assume "observe read v s p = Inr rv"
  then show "\<exists>q. al_qual read = Some q \<and> s < length q \<and> rv_quality rv = of_char (q ! s) - 33"
    using observe_fields by blast
next
  assume "al_qual read = None"
  then show "observe read v s p = Inl TypeError" by (rule observe_no_qual)
next
  assume nq: "al_qual read = None" and fa: "find_alleles vs start read = Inr rvs"
  have all: "list_all (quality_at_read_offset read) rvs" using fa by (rule find_alleles_quality_all)
  show "rvs = []"
  proof (cases rvs)
    case Nil
    then show ?thesis .
  next
    case (Cons rv rest)
    then have "quality_at_read_offset read rv" using all by simp
    then show ?thesis using nq by (simp add: quality_at_read_offset_def)
  qed
qed

lemma ex_find_alleles: "find_alleles ex_variants 0 ex_alignment =
  Inr [\<lparr>rv_position = 100, rv_base = ''G'', rv_allele = ''1'', rv_quality = 20\<rparr>,
       \<lparr>rv_position = 110, rv_base = ''T'', rv_allele = ''0'', rv_quality = 30\<rparr>]"
  by (simp add: find_alleles_def ex_variants_def ex_alignment_def skip_before.simps
      match_loop.simps observe_def)

theorem find_alleles_quality_witness:
  "find_alleles ex_variants 0 ex_alignment =
     Inr [\<lparr>rv_position = 100, rv_base = ''G'', rv_allele = ''1'', rv_quality = 20\<rparr>,
          \<lparr>rv_position = 110, rv_base = ''T'', rv_allele = ''0'', rv_quality = 30\<rparr>]
   \<and> list_all (quality_at_read_offset ex_alignment)
       [\<lparr>rv_position = 100, rv_base = ''G'', rv_allele = ''1'', rv_quality = 20\<rparr>,
        \<lparr>rv_position = 110, rv_base = ''T'', rv_allele = ''0'', rv_quality = 30\<rparr>]
   \<and> observe ex_alignment (ex_variants ! 0) 4 100
       = Inr \<lparr>rv_position = 100, rv_base = ''G'', rv_allele = ''1'', rv_quality = 20\<rparr>
   \<and> al_qual ex_alignment = Some ''IIII5IIIIIII?II''
   \<and> (20 :: int) = of_char (''IIII5IIIIIII?II'' ! 4) - 33
   \<and> al_qual (ex_alignment\<lparr>al_qual := None\<rparr>) = None
   \<and> observe (ex_alignment\<lparr>al_qual := None\<rparr>) (ex_variants ! 0) 4 100 = Inl TypeError"
proof -
  let ?rv = "\<lparr>rv_position = 100, rv_base = ''G'', rv_allele = ''1'', rv_quality = 20\<rparr>"
  have ob: "observe ex_alignment (ex_variants ! 0) 4 100 = Inr ?rv"
    by (simp add: observe_def ex_alignment_def ex_variants_def)
  have nq: "al_qual (ex_alignment\<lparr>al_qual := None\<rparr>) = None" by simp
  have a: "list_all (quality_at_read_offset ex_alignment)
       [\<lparr>rv_position = 100, rv_base = ''G'', rv_allele = ''1'', rv_quality = 20\<rparr>,
        \<lparr>rv_position = 110, rv_base = ''T'', rv_allele = ''0'', rv_quality = 30\<rparr>]"
    using find_alleles_quality [of ex_variants 0 ex_alignment _ "ex_variants ! 0" 4 100 ?rv]
      ex_find_alleles by blast
  have b: "observe (ex_alignment\<lparr>al_qual := None\<rparr>) (ex_variants ! 0) 4 100 = Inl TypeError"
    using find_alleles_quality [of ex_variants 0 "ex_alignment\<lparr>al_qual := None\<rparr>" "[]"
        "ex_variants ! 0" 4 100 ?rv] nq by blast
  have c: "al_qual ex_alignment = Some ''IIII5IIIIIII?II''" by (simp add: ex_alignment_def)
  have d: "(20 :: int) = of_char (''IIII5IIIIIII?II'' ! 4) - 33" by simp
  show ?thesis using ex_find_alleles a ob c d nq b by (intro conjI)
qed

text \<open>
  Claim C7 as stated fails: on an alignment that has no base-quality string and covers a
  variant, \<^verbatim>\<open>find_alleles\<close> raises a \<^verbatim>\<open>TypeError\<close> where the claim has it substitute a
  default quality.
\<close>

theorem find_alleles_no_default_quality:
  "find_alleles ex_variants 0 (ex_alignment\<lparr>al_qual := None\<rparr>) = Inl TypeError"
  by (simp add: find_alleles_def ex_variants_def ex_alignment_def skip_before.simps
      match_loop.simps observe_def)

text \<open>
  Claim C8. On a variant list with strictly increasing positions, \<^verbatim>\<open>find_alleles\<close> is
  the walk of the specification: match, sequence match and sequence mismatch advance the
  read cursor and the reference cursor and emit an observation for every pending variant
  that the region covers, read at the offset of its position; insertion and soft clip
  advance the read cursor only; deletion and reference skip advance the reference cursor
  only; hard clip and padding advance neither. The allele of an observation is 0 when
  the base equals the reference allele, 1 when it equals the alternative allele, and E
  otherwise.
\<close>

theorem find_alleles_cursor_semantics:
  "(variants_sorted vs \<longrightarrow>
      find_alleles vs start read =
        (case al_cigar read of
           None \<Rightarrow> Inl TypeError
         | Some cigar \<Rightarrow> spec_walk vs start read (al_pos read) 0 cigar))
   \<and> (observe read v s p = Inr rv \<longrightarrow>
        rv_position rv = p
        \<and> (\<exists>sq. al_seq read = Some sq \<and> rv_base rv = take 1 (drop s sq))
        \<and> rv_allele rv = (if rv_base rv = reference_allele v then ''0''
                          else if rv_base rv = alternative_allele v then ''1'' else ''E''))"
proof (intro conjI impI)
  assume srt: "variants_sorted vs"
  show "find_alleles vs start read =
        (case al_cigar read of
           None \<Rightarrow> Inl TypeError
         | Some cigar \<Rightarrow> spec_walk vs start read (al_pos read) 0 cigar)"
  proof (cases "al_cigar read")
    case None
    then show ?thesis by (simp add: find_alleles_def)
  next
    case (Some cigar)
    from find_alleles_loop_walk [OF srt pending_start [of vs start "al_pos read"],
        where read = read and s = 0 and rvs = "[]" and cigar = cigar]
    show ?thesis unfolding find_alleles_def Some
      by (cases "find_alleles_loop vs read (start, al_pos read, 0, []) cigar";
          cases "spec_walk vs start read (al_pos read) 0 cigar") auto
  qed
next
  assume ob: "observe read v s p = Inr rv"
  show "rv_position rv = p" using observe_fields [OF ob] by blast
  show "\<exists>sq. al_seq read = Some sq \<and> rv_base rv = take 1 (drop s sq)"
    using observe_fields [OF ob] by blast
  show "rv_allele rv = (if rv_base rv = reference_allele v then ''0''
                          else if rv_base rv = alternative_allele v then ''1'' else ''E'')"
    using observe_fields [OF ob] by blast
qed

theorem find_alleles_cursor_semantics_witness:
  "variants_sorted ex_variants
   \<and> al_cigar ex_alignment = Some [(4, 2), (0, 4), (2, 3), (1, 1), (0, 8)]
   \<and> spec_walk ex_variants 0 ex_alignment 98 0 [(4, 2), (0, 4), (2, 3), (1, 1), (0, 8)] =
       Inr [\<lparr>rv_position = 100, rv_base = ''G'', rv_allele = ''1'', rv_quality = 20\<rparr>,
            \<lparr>rv_position = 110, rv_base = ''T'', rv_allele = ''0'', rv_quality = 30\<rparr>]
   \<and> find_alleles ex_variants 0 ex_alignment =
       Inr [\<lparr>rv_position = 100, rv_base = ''G'', rv_allele = ''1'', rv_quality = 20\<rparr>,
            \<lparr>rv_position = 110, rv_base = ''T'', rv_allele = ''0'', rv_quality = 30\<rparr>]
   \<and> observe ex_alignment (ex_variants ! 0) 4 100
       = Inr \<lparr>rv_position = 100, rv_base = ''G'', rv_allele = ''1'', rv_quality = 20\<rparr>
   \<and> rv_allele \<lparr>rv_position = 100, rv_base = ''G'', rv_allele = ''1'', rv_quality = 20\<rparr> = ''1''
   \<and> alternative_allele (ex_variants ! 0) = ''G''"
proof -
  let ?rv = "\<lparr>rv_position = 100, rv_base = ''G'', rv_allele = ''1'', rv_quality = 20\<rparr>"
  have srt: "variants_sorted ex_variants" by (simp add: variants_sorted_def ex_variants_def)
  have cg: "al_cigar ex_alignment = Some [(4, 2), (0, 4), (2, 3), (1, 1), (0, 8)]"
    by (simp add: ex_alignment_def)
  have pos: "al_pos ex_alignment = 98" by (simp add: ex_alignment_def)
  have sw: "spec_walk ex_variants 0 ex_alignment 98 0 [(4, 2), (0, 4), (2, 3), (1, 1), (0, 8)] =
       Inr [\<lparr>rv_position = 100, rv_base = ''G'', rv_allele = ''1'', rv_quality = 20\<rparr>,
            \<lparr>rv_position = 110, rv_base = ''T'', rv_allele = ''0'', rv_quality = 30\<rparr>]"
    by (simp add: spec_hits_def ex_variants_def ex_alignment_def observe_def)
  have ob: "observe ex_alignment (ex_variants ! 0) 4 100 = Inr ?rv"
    by (simp add: observe_def ex_alignment_def ex_variants_def)
  have fa: "find_alleles ex_variants 0 ex_alignment =
       Inr [\<lparr>rv_position = 100, rv_base = ''G'', rv_allele = ''1'', rv_quality = 20\<rparr>,
            \<lparr>rv_position = 110, rv_base = ''T'', rv_allele = ''0'', rv_quality = 30\<rparr>]"
    using find_alleles_cursor_semantics [of ex_variants 0 ex_alignment "ex_variants ! 0" 4 100 ?rv]
      srt sw by (simp add: cg pos)
  have al: "rv_allele ?rv = ''1''" by simp
  have alt: "alternative_allele (ex_variants ! 0) = ''G''" by (simp add: ex_variants_def)
  show ?thesis using srt cg sw fa ob al alt by (intro conjI)
qed

section \<open>Properties of grouping and merging\<close>

lemma grouped_by_name_loop_concat:
  "concat (grouped_by_name_loop rs result prev current) = concat result @ current @ rs"
  by (induction rs result prev current rule: grouped_by_name_loop.induct)
     (auto split: option.splits)

lemma merge_paired_reads_loop_char:
  "merge_paired_reads_loop gs result =
     (if \<exists>g\<in>set gs. 2 < length g then Inl AssertionError
      else Inr (result @ concat (map spec_merge_group gs)))"
proof (induction gs arbitrary: result)
  case Nil
  then show ?case by simp
next
  case (Cons g gs)
  consider "length g = 0" | "length g = 1" | "length g = 2" | "2 < length g" by linarith
  then show ?case
  proof cases
    case 1
    then show ?thesis using Cons by simp
  next
    case 2
    then obtain a where "g = [a]" by (cases g) auto
    then show ?thesis using Cons by simp
  next
    case 3
    then obtain a b where "g = [a, b]"
      by (cases g; cases "tl g") auto
    then show ?thesis using Cons by (simp add: merged_read_def)
  next
    case 4
    then show ?thesis by auto
  qed
qed

lemma same_name_run_last:
  assumes "same_name_run g"
  shows "name (last g) = name (hd g)"
proof -
  have "g \<noteq> []" and all: "\<forall>x\<in>set g. name x = name (hd g)"
    using assms unfolding same_name_run_def list_all_iff by blast+
  then have "last g \<in> set g" by simp
  with all show ?thesis by blast
qed

lemma same_name_run_snoc:
  assumes "same_name_run g" and "name r = name (last g)"
  shows "same_name_run (g @ [r])"
proof -
  have "g \<noteq> []" using assms(1) by (simp add: same_name_run_def)
  then have "hd (g @ [r]) = hd g" by simp
  moreover have "name r = name (hd g)" using assms same_name_run_last by simp
  moreover have "list_all (\<lambda>x. name x = name (hd g)) g"
    using assms(1) unfolding same_name_run_def by blast
  ultimately show ?thesis unfolding same_name_run_def by simp
qed

lemma same_name_run_single: "same_name_run [r]"
  by (simp add: same_name_run_def)

lemma name_runs_snoc_read:
  "name_runs (gs @ [g]) \<Longrightarrow> name r = name (last g) \<Longrightarrow> name_runs (gs @ [g @ [r]])"
proof (induction gs rule: name_runs.induct)
  case 1
  then show ?case by (simp add: same_name_run_snoc)
next
  case (2 g')
  then have "g \<noteq> []" by (simp add: same_name_run_def)
  then have "hd (g @ [r]) = hd g" by simp
  then show ?case using 2 by (simp add: same_name_run_snoc)
next
  case (3 g' h gs)
  then show ?case by simp
qed

lemma name_runs_snoc_group:
  "name_runs (gs @ [g]) \<Longrightarrow> name r \<noteq> name (last g) \<Longrightarrow> name_runs (gs @ [g, [r]])"
proof (induction gs rule: name_runs.induct)
  case 1
  then show ?case by (simp add: same_name_run_single)
next
  case (2 g')
  then show ?case by (simp add: same_name_run_single)
next
  case (3 g' h gs)
  then show ?case by simp
qed

lemma grouped_by_name_loop_runs:
  "current \<noteq> [] \<Longrightarrow> prev = Some (last current) \<Longrightarrow> name_runs (result @ [current])
   \<Longrightarrow> name_runs (grouped_by_name_loop rs result prev current)"
proof (induction rs arbitrary: result prev current)
  case Nil
  then show ?case by simp
next
  case (Cons r rs)
  show ?case
  proof (cases "name r = name (last current)")
    case True
    have "name_runs (grouped_by_name_loop rs result (Some r) (current @ [r]))"
      by (rule Cons.IH) (use Cons.prems True in \<open>auto intro: name_runs_snoc_read\<close>)
    then show ?thesis using Cons.prems True by simp
  next
    case False
    have "name_runs (grouped_by_name_loop rs (result @ [current]) (Some r) [r])"
      by (rule Cons.IH) (use Cons.prems False in \<open>auto intro: name_runs_snoc_group\<close>)
    then show ?thesis using Cons.prems False by simp
  qed
qed

lemma grouped_by_name_runs:
  assumes "reads \<noteq> []"
  shows "name_runs (grouped_by_name reads)"
proof (cases reads)
  case Nil
  then show ?thesis using assms by simp
next
  case (Cons r rs)
  have "name_runs (grouped_by_name_loop rs [] (Some r) [r])"
    by (rule grouped_by_name_loop_runs) (simp_all add: same_name_run_single)
  then show ?thesis using Cons by (simp add: grouped_by_name_def)
qed

text \<open>
  Claim C9. The groups that \<^verbatim>\<open>grouped_by_name\<close> returns are the maximal runs of
  equal names of its input, in order. \<^verbatim>\<open>merge_paired_reads\<close> maps a group of size 1 to
  the unchanged fragment and a group of size 2 to one merged fragment (the observations
  of the first mate, one sentinel, the observations of the second mate, with the pair of
  the two mapping qualities), and it fails on every input that has a group of more than
  two fragments. The failure is the \<^verbatim>\<open>AssertionError\<close> of the source's \<^verbatim>\<open>assert\<close>, which
  the specification calls AmbiguousPair.
\<close>

theorem merge_paired_reads_groups:
  "concat (grouped_by_name reads) = reads
   \<and> (reads \<noteq> [] \<longrightarrow> name_runs (grouped_by_name reads))
   \<and> merge_paired_reads reads =
       (if \<exists>g\<in>set (grouped_by_name reads). 2 < length g then Inl AssertionError
        else Inr (concat (map spec_merge_group (grouped_by_name reads))))"
proof (intro conjI)
  show "concat (grouped_by_name reads) = reads"
    by (simp add: grouped_by_name_def grouped_by_name_loop_concat)
  show "reads \<noteq> [] \<longrightarrow> name_runs (grouped_by_name reads)"
    by (simp add: grouped_by_name_runs)
  show "merge_paired_reads reads =
       (if \<exists>g\<in>set (grouped_by_name reads). 2 < length g then Inl AssertionError
        else Inr (concat (map spec_merge_group (grouped_by_name reads))))"
    by (simp add: merge_paired_reads_def merge_paired_reads_loop_char)
qed

theorem merge_paired_reads_groups_witness:
  "[ex_read ''a'' 60 [10, 20], ex_read ''a'' 50 [30], ex_read ''b'' 40 [20, 30]] \<noteq> []
   \<and> grouped_by_name [ex_read ''a'' 60 [10, 20], ex_read ''a'' 50 [30], ex_read ''b'' 40 [20, 30]]
       = [[ex_read ''a'' 60 [10, 20], ex_read ''a'' 50 [30]], [ex_read ''b'' 40 [20, 30]]]
   \<and> name_runs (grouped_by_name [ex_read ''a'' 60 [10, 20], ex_read ''a'' 50 [30], ex_read ''b'' 40 [20, 30]])
   \<and> merge_paired_reads [ex_read ''a'' 60 [10, 20], ex_read ''a'' 50 [30], ex_read ''b'' 40 [20, 30]]
       = Inr [\<lparr>name = ''a'', mapq = MapQPair (MapQ 60) (MapQ 50),
               variants = variants (ex_read ''a'' 60 [10, 20]) @ None # variants (ex_read ''a'' 50 [30])\<rparr>,
              ex_read ''b'' 40 [20, 30]]
   \<and> merge_paired_reads [ex_read ''a'' 60 [10], ex_read ''a'' 50 [30], ex_read ''a'' 40 [20]]
       = Inl AssertionError"
proof -
  let ?X = "[ex_read ''a'' 60 [10, 20], ex_read ''a'' 50 [30], ex_read ''b'' 40 [20, 30]]"
  let ?Y = "[ex_read ''a'' 60 [10], ex_read ''a'' 50 [30], ex_read ''a'' 40 [20]]"
  have g: "grouped_by_name ?X
       = [[ex_read ''a'' 60 [10, 20], ex_read ''a'' 50 [30]], [ex_read ''b'' 40 [20, 30]]]"
    by (simp add: grouped_by_name_def ex_read_def)
  have g2: "grouped_by_name ?Y = [?Y]"
    by (simp add: grouped_by_name_def ex_read_def)
  have r0: "?X \<noteq> []" by simp
  have r1: "name_runs (grouped_by_name ?X)"
    using merge_paired_reads_groups [of ?X] by blast
  have r2: "merge_paired_reads ?X = Inr (concat (map spec_merge_group (grouped_by_name ?X)))"
    using merge_paired_reads_groups [of ?X] unfolding g by simp
  have r3: "merge_paired_reads ?Y = Inl AssertionError"
    using merge_paired_reads_groups [of ?Y] unfolding g2 by simp
  have r4: "concat (map spec_merge_group (grouped_by_name ?X)) =
      [\<lparr>name = ''a'', mapq = MapQPair (MapQ 60) (MapQ 50),
               variants = variants (ex_read ''a'' 60 [10, 20]) @ None # variants (ex_read ''a'' 50 [30])\<rparr>,
              ex_read ''b'' 40 [20, 30]]"
    unfolding g by (simp add: ex_read_def)
  show ?thesis
    using r0 g r1 r2 [unfolded r4] r3 by (intro conjI)
qed


section \<open>Properties of reading the alignments\<close>

lemma read_step_no_sample:
  "read_step opt thr vs None read i = read_step opt' thr vs None read i"
  by (simp add: read_step_def skipped_for_read_group_def)

lemma read_loop_no_sample:
  "read_loop opt thr vs None alignments i result = read_loop opt' thr vs None alignments i result"
proof (induction alignments arbitrary: i result)
  case Nil
  then show ?case by simp
next
  case (Cons read rest)
  show ?case
    using Cons.IH read_step_no_sample [of opt thr vs read i opt']
    by (simp split: sum.splits prod.splits)
qed

lemma read_step_opt_fails:
  "opt read ''RG'' = Inl e \<Longrightarrow> read_step opt thr vs (Some groups) read i = Inl e"
  by (simp add: read_step_def skipped_for_read_group_def)

lemma read_step_other_group:
  "opt read ''RG'' = Inr g \<Longrightarrow> g \<notin> set groups
   \<Longrightarrow> read_step opt thr vs (Some groups) read i = Inr (i, None)"
  by (simp add: read_step_def skipped_for_read_group_def)

lemma read_loop_opt_fails:
  "read \<in> set alignments \<Longrightarrow> opt read ''RG'' = Inl e
   \<Longrightarrow> \<exists>e'. read_loop opt thr vs (Some groups) alignments i result = Inl e'"
proof (induction alignments arbitrary: i result)
  case Nil
  then show ?case by simp
next
  case (Cons a rest)
  show ?case
  proof (cases "read_step opt thr vs (Some groups) a i")
    case (Inl e')
    then show ?thesis by simp
  next
    case (Inr st)
    then have "a \<noteq> read"
      using read_step_opt_fails [of opt read e thr vs groups i] Cons.prems(2) by auto
    then have mem: "read \<in> set rest" using Cons.prems(1) by simp
    obtain i' rvl where st: "st = (i', rvl)" by (cases st)
    show ?thesis using Cons.IH [OF mem Cons.prems(2)] Inr st by simp
  qed
qed

text \<open>
  Claim C6, as amended. When no sample is given, every alignment passes the read-group
  check: \<^verbatim>\<open>opt\<close> is not consulted and the result does not depend on the tags. When a
  sample is given, an alignment whose read group is not one of the sample's is skipped,
  and an alignment for which \<^verbatim>\<open>read.opt('RG')\<close> raises (pysam raises a \<^verbatim>\<open>KeyError\<close> for an
  absent tag) makes \<^verbatim>\<open>BamReader.read\<close> fail: the error is not caught.
\<close>

theorem read_group_check:
  "BamReader_read opt reader chromosome vs None = BamReader_read opt' reader chromosome vs None
   \<and> skipped_for_read_group opt None read = Inr False
   \<and> (map_of (br_sample_to_group_ids reader) sm = Some groups \<longrightarrow>
        read \<in> set (br_fetch reader chromosome) \<longrightarrow> opt read ''RG'' = Inl e \<longrightarrow>
        (\<exists>e'. BamReader_read opt reader chromosome vs (Some sm) = Inl e'))
   \<and> (opt read ''RG'' = Inr g \<longrightarrow> g \<notin> set groups \<longrightarrow>
        read_loop opt thr vs (Some groups) (read # rest) i result
        = read_loop opt thr vs (Some groups) rest i result)"
proof (intro conjI impI)
  show "BamReader_read opt reader chromosome vs None = BamReader_read opt' reader chromosome vs None"
    using read_loop_no_sample [of opt _ vs _ 0 "[]" opt'] by (simp add: BamReader_read_def)
  show "skipped_for_read_group opt None read = Inr False"
    by (simp add: skipped_for_read_group_def)
next
  assume "map_of (br_sample_to_group_ids reader) sm = Some groups"
    "read \<in> set (br_fetch reader chromosome)" "opt read ''RG'' = Inl e"
  then show "\<exists>e'. BamReader_read opt reader chromosome vs (Some sm) = Inl e'"
    using read_loop_opt_fails [of read "br_fetch reader chromosome" opt e] 
    by (simp add: BamReader_read_def)
next
  assume "opt read ''RG'' = Inr g" "g \<notin> set groups"
  then show "read_loop opt thr vs (Some groups) (read # rest) i result
        = read_loop opt thr vs (Some groups) rest i result"
    using read_step_other_group [of opt read g groups thr vs i] by simp
qed

theorem read_group_check_witness:
  "map_of (br_sample_to_group_ids (ex_reader [ex_alignment\<lparr>al_tags := []\<rparr>])) ''sample1'' = Some [''g1'']
   \<and> ex_alignment\<lparr>al_tags := []\<rparr> \<in> set (br_fetch (ex_reader [ex_alignment\<lparr>al_tags := []\<rparr>]) ''chr1'')
   \<and> pysam_opt (ex_alignment\<lparr>al_tags := []\<rparr>) ''RG'' = Inl KeyError
   \<and> (\<exists>e'. BamReader_read pysam_opt (ex_reader [ex_alignment\<lparr>al_tags := []\<rparr>]) ''chr1'' ex_variants
              (Some ''sample1'') = Inl e')
   \<and> pysam_opt (ex_alignment\<lparr>al_tags := [(''RG'', ''g2'')]\<rparr>) ''RG'' = Inr ''g2''
   \<and> ''g2'' \<notin> set [''g1'']
   \<and> read_loop pysam_opt 20 ex_variants (Some [''g1''])
         [ex_alignment\<lparr>al_tags := [(''RG'', ''g2'')]\<rparr>, ex_alignment] 0 []
       = read_loop pysam_opt 20 ex_variants (Some [''g1'']) [ex_alignment] 0 []
   \<and> BamReader_read pysam_opt (ex_reader [ex_alignment\<lparr>al_tags := []\<rparr>]) ''chr1'' ex_variants None
       = BamReader_read (\<lambda>read tag. Inr ''g1'') (ex_reader [ex_alignment\<lparr>al_tags := []\<rparr>]) ''chr1''
           ex_variants None"
proof -
  let ?u = "ex_alignment\<lparr>al_tags := []\<rparr>"
  let ?o = "ex_alignment\<lparr>al_tags := [(''RG'', ''g2'')]\<rparr>"
  have a: "map_of (br_sample_to_group_ids (ex_reader [?u])) ''sample1'' = Some [''g1'']"
    by (simp add: ex_reader_def)
  have b: "?u \<in> set (br_fetch (ex_reader [?u]) ''chr1'')" by (simp add: ex_reader_def)
  have c: "pysam_opt ?u ''RG'' = Inl KeyError" by (simp add: pysam_opt_def)
  have d: "pysam_opt ?o ''RG'' = Inr ''g2''" by (simp add: pysam_opt_def)
  have e: "''g2'' \<notin> set [''g1'']" by simp
  note t1 = read_group_check [of pysam_opt "ex_reader [?u]" "''chr1''" ex_variants
      "\<lambda>read tag. Inr ''g1''" ?u "''sample1''" "[''g1'']" KeyError]
  note t2 = read_group_check [of pysam_opt "ex_reader [?u]" "''chr1''" ex_variants
      "\<lambda>read tag. Inr ''g1''" ?o "''sample1''" "[''g1'']" KeyError "''g2''" 20 "[ex_alignment]" 0 "[]"]
  have f: "\<exists>e'. BamReader_read pysam_opt (ex_reader [?u]) ''chr1'' ex_variants (Some ''sample1'') = Inl e'"
    using t1 a b c by blast
  have g: "read_loop pysam_opt 20 ex_variants (Some [''g1'']) [?o, ex_alignment] 0 []
       = read_loop pysam_opt 20 ex_variants (Some [''g1'']) [ex_alignment] 0 []"
    using t2 d e by blast
  have h: "BamReader_read pysam_opt (ex_reader [?u]) ''chr1'' ex_variants None
       = BamReader_read (\<lambda>read tag. Inr ''g1'') (ex_reader [?u]) ''chr1'' ex_variants None"
    using t1 by blast
  show ?thesis using a b c f d e g h by (intro conjI)
qed

lemma ex_read_tagged:
  "BamReader_read pysam_opt (ex_reader [ex_alignment]) ''chr1'' ex_variants (Some ''sample1'')
   = Inr [\<lparr>name = ''r1'', mapq = MapQ 60,
           variants = [Some \<lparr>rv_position = 100, rv_base = ''G'', rv_allele = ''1'', rv_quality = 20\<rparr>,
                       Some \<lparr>rv_position = 110, rv_base = ''T'', rv_allele = ''0'', rv_quality = 30\<rparr>]\<rparr>]"
  by (simp add: BamReader_read_def ex_reader_def read_step_def skipped_for_read_group_def pysam_opt_def
      skipped_for_flags_def skip_before.simps match_loop.simps observe_def find_alleles_def
      ex_alignment_def ex_variants_def)

text \<open>
  Claim C6 as stated fails: with a sample given, an alignment without a read-group tag
  is not skipped; the \<^verbatim>\<open>KeyError\<close> of \<^verbatim>\<open>read.opt('RG')\<close> ends \<^verbatim>\<open>BamReader.read\<close>.
\<close>

theorem read_group_missing_tag_fails:
  "BamReader_read pysam_opt (ex_reader [ex_alignment\<lparr>al_tags := []\<rparr>]) ''chr1'' ex_variants
     (Some ''sample1'') = Inl KeyError"
  by (simp add: BamReader_read_def ex_reader_def read_step_def skipped_for_read_group_def pysam_opt_def)

section \<open>Properties of the Fragment Filter\<close>

text \<open>
  Claim C4 against the code. \<^verbatim>\<open>filter_reads\<close> compares \<^verbatim>\<open>len(read.variants)\<close> with
  \<^verbatim>\<open>mincount\<close>, and that length counts the sentinel of a merged pair. A merged pair of
  two mates with one observation each therefore passes \<^verbatim>\<open>mincount = 3\<close> with two
  observations, and a fragment of one observation and a sentinel passes the default
  \<^verbatim>\<open>mincount = 2\<close>, where the docstring and the claim count observations ("the total
  number of variants on a paired-end read").
\<close>

theorem filter_reads_counts_sentinel:
  "filter_reads [merged_read (ex_read ''a'' 60 [10]) (ex_read ''a'' 50 [20])] 3
     = Inr [merged_read (ex_read ''a'' 60 [10]) (ex_read ''a'' 50 [20])]
   \<and> observation_count (merged_read (ex_read ''a'' 60 [10]) (ex_read ''a'' 50 [20])) = 2
   \<and> filter_reads [\<lparr>name = ''b'', mapq = MapQ 60, variants = variants (ex_read ''b'' 60 [10]) @ [None]\<rparr>] 2
     = Inr [\<lparr>name = ''b'', mapq = MapQ 60, variants = variants (ex_read ''b'' 60 [10]) @ [None]\<rparr>]
   \<and> observation_count \<lparr>name = ''b'', mapq = MapQ 60, variants = variants (ex_read ''b'' 60 [10]) @ [None]\<rparr> = 1"
  by (simp add: filter_reads_def merged_read_def ex_read_def observation_count_def sublist_code)




section \<open>Properties of the Extension Voter\<close>

declare length_of_polymer_loop.simps [simp del]

















section \<open>Properties of the Coverage Slicer\<close>











lemma not_fits_nonneg: "mc \<le> 0 \<Longrightarrow> \<not> fits mc b e c"
  by (auto simp: fits_def split: sum.splits)


























lemma position_list_sorted_set: "position_list reads = sorted_list_of_set (position_set reads)"
  unfolding position_list_def position_set_def
  by (rule sorted_list_of_set_sort_remdups [symmetric])






















end
